theory Spec2Isabelle
  imports Main
begin

section \<open>Data model\<close>

text \<open>
  The board of \<^verbatim>\<open>sudoku_solver_gen3.py\<close> is a Python list of nine lists of nine
  integers, 0 standing for an empty cell. Python integers are unbounded, so a
  cell is an \<open>int\<close>; indices are natural numbers (every index the class
  computes comes from \<^verbatim>\<open>range\<close>, \<^verbatim>\<open>np.where\<close> or floor division of
  such a number). Exceptions are values of the type \<open>error\<close>, and a method
  that can raise returns \<open>error + 'a\<close>.
\<close>

datatype error = IndexError | KeyError | AssertionError

type_synonym grid = "int list list"
type_synonym cell = "nat \<times> nat"

definition BOARD_SIZE :: nat where
  "BOARD_SIZE = 9"

text \<open>\<^verbatim>\<open>BOX_SIZE = int(np.sqrt(BOARD_SIZE))\<close>, that is 3.\<close>

definition BOX_SIZE :: nat where
  "BOX_SIZE = 3"

text \<open>Sequencing of computations that may raise: the first error wins.\<close>

definition bindE :: "error + 'a \<Rightarrow> ('a \<Rightarrow> error + 'b) \<Rightarrow> error + 'b" where
  "bindE m f = (case m of Inl e \<Rightarrow> Inl e | Inr x \<Rightarrow> f x)"

text \<open>A list comprehension whose element expression may raise.\<close>

fun mapE :: "('a \<Rightarrow> error + 'b) \<Rightarrow> 'a list \<Rightarrow> error + 'b list" where
  "mapE f [] = Inr []"
| "mapE f (x # xs) =
     (case f x of
        Inl e \<Rightarrow> Inl e
      | Inr y \<Rightarrow> (case mapE f xs of Inl e \<Rightarrow> Inl e | Inr ys \<Rightarrow> Inr (y # ys)))"

text \<open>\<^verbatim>\<open>xs[i]\<close> and \<^verbatim>\<open>xs[i] = v\<close> for a non-negative index.\<close>

definition getitem :: "'a list \<Rightarrow> nat \<Rightarrow> error + 'a" where
  "getitem xs i = (if i < length xs then Inr (xs ! i) else Inl IndexError)"

definition setitem :: "'a list \<Rightarrow> nat \<Rightarrow> 'a \<Rightarrow> error + 'a list" where
  "setitem xs i v = (if i < length xs then Inr (xs[i := v]) else Inl IndexError)"

text \<open>\<^verbatim>\<open>self.grid[i][j]\<close> and \<^verbatim>\<open>self.grid[i][j] = v\<close>.\<close>

definition get_cell :: "grid \<Rightarrow> nat \<Rightarrow> nat \<Rightarrow> error + int" where
  "get_cell g i j = bindE (getitem g i) (\<lambda>r. getitem r j)"

definition set_cell :: "grid \<Rightarrow> nat \<Rightarrow> nat \<Rightarrow> int \<Rightarrow> error + grid" where
  "set_cell g i j v =
     bindE (getitem g i) (\<lambda>r. bindE (setitem r j v) (\<lambda>r'. Inr (g[i := r'])))"

section \<open>Grid model\<close>

definition get_row :: "grid \<Rightarrow> nat \<Rightarrow> error + int list" where
  "get_row g row = getitem g row"

definition get_col :: "grid \<Rightarrow> nat \<Rightarrow> error + int list" where
  "get_col g col = mapE (\<lambda>i. get_cell g i col) [0..<BOARD_SIZE]"

definition get_box :: "grid \<Rightarrow> nat \<Rightarrow> nat \<Rightarrow> error + int list" where
  "get_box g row col =
     (let box_row = (row div BOX_SIZE) * BOX_SIZE;
          box_col = (col div BOX_SIZE) * BOX_SIZE
      in mapE (\<lambda>(i, j). get_cell g (box_row + i) (box_col + j))
           (concat (map (\<lambda>i. map (\<lambda>j. (i, j)) [0..<BOX_SIZE]) [0..<BOX_SIZE])))"

text \<open>
  \<^verbatim>\<open>list(zip(*np.where(np.array(self.grid) == 0)))\<close>: the coordinates of the
  zero cells in row-major order, which is the order \<^verbatim>\<open>np.where\<close> scans a
  two-dimensional array in. The grid is built rectangular (line 86) and is
  never resized, so the conversion to an array does not fail.
\<close>

definition get_empty_cells :: "grid \<Rightarrow> cell list" where
  "get_empty_cells g =
     concat (map (\<lambda>i. map (\<lambda>j. (i, j)) (filter (\<lambda>j. g ! i ! j = 0) [0..<length (g ! i)]))
                 [0..<length g])"

section \<open>Solver\<close>

definition get_valid_numbers :: "grid \<Rightarrow> nat \<Rightarrow> nat \<Rightarrow> error + int list" where
  "get_valid_numbers g row col =
     bindE (get_row g row) (\<lambda>r.
     bindE (get_col g col) (\<lambda>c.
     bindE (get_box g row col) (\<lambda>b.
       Inr (filter (\<lambda>num. num \<notin> set (r @ c @ b)) [1..9]))))"

text \<open>
  Python's \<^verbatim>\<open>min(iterable, key=...)\<close>: the key of every element is computed
  once, in order, and an element replaces the best one only when its key is
  strictly smaller, so the first minimal element is returned.
\<close>

fun min_loop :: "('a \<Rightarrow> error + nat) \<Rightarrow> 'a \<Rightarrow> nat \<Rightarrow> 'a list \<Rightarrow> error + 'a" where
  "min_loop key best best_key [] = Inr best"
| "min_loop key best best_key (x # xs) =
     (case key x of
        Inl e \<Rightarrow> Inl e
      | Inr k \<Rightarrow> (if k < best_key then min_loop key x k xs
                 else min_loop key best best_key xs))"

definition num_valid :: "grid \<Rightarrow> cell \<Rightarrow> error + nat" where
  "num_valid g x = (case x of (r, c) \<Rightarrow> bindE (get_valid_numbers g r c) (\<lambda>v. Inr (length v)))"

definition get_min_remaining_values_cell :: "grid \<Rightarrow> error + cell option" where
  "get_min_remaining_values_cell g =
     (let empty_cells = get_empty_cells g in
      case empty_cells of
        [] \<Rightarrow> Inr None
      | x # xs \<Rightarrow>
          bindE (num_valid g x) (\<lambda>k.
          bindE (min_loop (num_valid g) x k xs) (\<lambda>best. Inr (Some best))))"

text \<open>
  \<^verbatim>\<open>solve\<close> returns its boolean together with the grid it leaves behind;
  \<open>solve_loop\<close> is the \<^verbatim>\<open>for num in valid_nums\<close> loop of lines 198 to 204.
\<close>

function solve :: "grid \<Rightarrow> error + (bool \<times> grid)"
  and solve_loop :: "grid \<Rightarrow> nat \<Rightarrow> nat \<Rightarrow> int list \<Rightarrow> error + (bool \<times> grid)" where
  "solve g =
     (case get_min_remaining_values_cell g of
        Inl e \<Rightarrow> Inl e
      | Inr None \<Rightarrow> Inr (True, g)
      | Inr (Some (row, col)) \<Rightarrow>
          (case get_valid_numbers g row col of
             Inl e \<Rightarrow> Inl e
           | Inr valid_nums \<Rightarrow> solve_loop g row col valid_nums))"
| "solve_loop g row col [] = Inr (False, g)"
| "solve_loop g row col (num # nums) =
     (case set_cell g row col num of
        Inl e \<Rightarrow> Inl e
      | Inr g1 \<Rightarrow>
          (case solve g1 of
             Inl e \<Rightarrow> Inl e
           | Inr (True, g2) \<Rightarrow> Inr (True, g2)
           | Inr (False, g2) \<Rightarrow>
               (case set_cell g2 row col 0 of
                  Inl e \<Rightarrow> Inl e
                | Inr g3 \<Rightarrow> solve_loop g3 row col nums)))"
  by pat_completeness auto


text \<open>
  \<^verbatim>\<open>is_solved\<close>: \<open>cell_check\<close> is the comparison
  \<^verbatim>\<open>self.get_valid_numbers(i, j) == [self.grid[i][j]]\<close>, \<open>all_loop\<close> is Python's
  \<^verbatim>\<open>all\<close> over a generator (it stops at the first false element), and
  \<open>all_cells\<close> is the order \<^verbatim>\<open>for i in range(BOARD_SIZE) for j in range(BOARD_SIZE)\<close>.
\<close>

definition cell_check :: "grid \<Rightarrow> cell \<Rightarrow> error + bool" where
  "cell_check g x =
     (case x of (i, j) \<Rightarrow>
        bindE (get_valid_numbers g i j) (\<lambda>v. bindE (get_cell g i j) (\<lambda>y. Inr (v = [y]))))"

fun all_loop :: "('a \<Rightarrow> error + bool) \<Rightarrow> 'a list \<Rightarrow> error + bool" where
  "all_loop p [] = Inr True"
| "all_loop p (x # xs) =
     (case p x of
        Inl e \<Rightarrow> Inl e
      | Inr b \<Rightarrow> (if b then all_loop p xs else Inr False))"

definition all_cells :: "cell list" where
  "all_cells = concat (map (\<lambda>i. map (\<lambda>j. (i, j)) [0..<BOARD_SIZE]) [0..<BOARD_SIZE])"

definition is_solved :: "grid \<Rightarrow> error + bool" where
  "is_solved g =
     (if get_empty_cells g \<noteq> [] then Inr False else all_loop (cell_check g) all_cells)"

section \<open>Generator\<close>

definition difficulty_values :: "(string \<times> nat) list" where
  "difficulty_values = [(''easy'', 30), (''medium'', 40), (''hard'', 50), (''expert'', 60)]"

text \<open>
  The sampling loop \<^verbatim>\<open>for _ in range(10)\<close> of lines 96 to 104, run on the board
  \<open>g\<close> whose cell \<open>(i, j)\<close> has just been cleared. The copy \<^verbatim>\<open>temp_board\<close> is a
  value of its own, so solving it leaves \<open>g\<close> alone. The loop returns the
  board and the final value of \<^verbatim>\<open>count\<close>.
\<close>

fun sample_loop :: "grid \<Rightarrow> nat \<Rightarrow> nat \<Rightarrow> int \<Rightarrow> nat \<Rightarrow> nat list \<Rightarrow> error + (grid \<times> nat)" where
  "sample_loop g i j temp count [] = Inr (g, count)"
| "sample_loop g i j temp count (_ # rest) =
     (case set_cell g i j temp of
        Inl e \<Rightarrow> Inl e
      | Inr temp_board \<Rightarrow>
          (case solve temp_board of
             Inl e \<Rightarrow> Inl e
           | Inr (_, temp_board') \<Rightarrow>
               (case is_solved temp_board' of
                  Inl e \<Rightarrow> Inl e
                | Inr s \<Rightarrow>
                    (let count' = (if s then count + 1 else count) in
                     if count' > 1 then
                       (case set_cell g i j temp of
                          Inl e \<Rightarrow> Inl e
                        | Inr g' \<Rightarrow> Inr (g', count'))
                     else sample_loop g i j temp count' rest))))"

text \<open>The loop \<^verbatim>\<open>for i, j in cells\<close> of lines 92 to 106.\<close>

fun remove_loop :: "grid \<Rightarrow> nat \<Rightarrow> cell list \<Rightarrow> error + grid" where
  "remove_loop g num_zeros [] = Inr g"
| "remove_loop g num_zeros ((i, j) # cells) =
     (case get_cell g i j of
        Inl e \<Rightarrow> Inl e
      | Inr temp \<Rightarrow>
          (case set_cell g i j 0 of
             Inl e \<Rightarrow> Inl e
           | Inr g1 \<Rightarrow>
               (case sample_loop g1 i j temp 0 [0..<10] of
                  Inl e \<Rightarrow> Inl e
                | Inr (g2, _) \<Rightarrow>
                    (if length (get_empty_cells g2) \<ge> num_zeros then Inr g2
                     else remove_loop g2 num_zeros cells))))"

text \<open>
  \<^verbatim>\<open>__create_board\<close>. \<^verbatim>\<open>random.shuffle\<close> leaves the 81 coordinates in some
  order; that order is the parameter \<open>shuffled\<close>. A board object has the
  single attribute \<^verbatim>\<open>grid\<close>, so the constructed board is its grid.
\<close>

definition create_board :: "string \<Rightarrow> cell list \<Rightarrow> error + grid" where
  "create_board difficulty shuffled =
     (case solve (replicate BOARD_SIZE (replicate BOARD_SIZE 0)) of
        Inl e \<Rightarrow> Inl e
      | Inr (_, g) \<Rightarrow>
          (case map_of difficulty_values difficulty of
             None \<Rightarrow> Inl KeyError
           | Some num_zeros \<Rightarrow> remove_loop g num_zeros shuffled))"

text \<open>
  \<^verbatim>\<open>__init__\<close>. The assertion of line 73 compares the difficulty, a string, with
  the dictionary \<^verbatim>\<open>difficulty_values\<close> itself; \<open>pyobj\<close> keeps the two kinds of
  object apart, as Python's \<^verbatim>\<open>!=\<close> does.
\<close>

datatype pyobj = Str string | Dict "(string \<times> nat) list"

definition Board_init :: "string \<Rightarrow> cell list \<Rightarrow> error + grid" where
  "Board_init difficulty shuffled =
     (if \<not> (Str difficulty \<noteq> Dict difficulty_values) then Inl AssertionError
      else create_board difficulty shuffled)"

section \<open>Row and column objects in a store\<close>

text \<open>
  Whether a caller who mutates a returned list changes the board depends on
  which list object is returned. Here the list objects live in a store, a
  reference is an index into it, and \<^verbatim>\<open>self.grid\<close> is the list of the
  references of its nine rows. \<^verbatim>\<open>get_row\<close> returns \<^verbatim>\<open>self.grid[row]\<close>, the row
  object itself; \<^verbatim>\<open>get_col\<close> builds a new list by a comprehension.
\<close>

type_synonym ref = nat
type_synonym store = "int list list"

definition deref :: "store \<Rightarrow> ref \<Rightarrow> error + int list" where
  "deref h a = getitem h a"

definition store_get_row :: "store \<Rightarrow> ref list \<Rightarrow> nat \<Rightarrow> error + (store \<times> ref)" where
  "store_get_row h rows row = bindE (getitem rows row) (\<lambda>a. Inr (h, a))"

definition store_get_col :: "store \<Rightarrow> ref list \<Rightarrow> nat \<Rightarrow> error + (store \<times> ref)" where
  "store_get_col h rows col =
     bindE (mapE (\<lambda>i. bindE (getitem rows i) (\<lambda>a. bindE (deref h a) (\<lambda>r. getitem r col)))
              [0..<BOARD_SIZE])
       (\<lambda>vals. Inr (h @ [vals], length h))"

text \<open>\<^verbatim>\<open>lst[k] = v\<close> on the list object at reference \<open>a\<close>.\<close>

definition store_setitem :: "store \<Rightarrow> ref \<Rightarrow> nat \<Rightarrow> int \<Rightarrow> error + store" where
  "store_setitem h a k v =
     bindE (deref h a) (\<lambda>xs. bindE (setitem xs k v) (\<lambda>xs'. Inr (h[a := xs'])))"

text \<open>The grid of values that the board's row references stand for.\<close>

definition store_grid :: "store \<Rightarrow> ref list \<Rightarrow> error + grid" where
  "store_grid h rows = mapE (deref h) rows"

section \<open>Specification vocabulary\<close>

text \<open>A well-formed board: nine rows of nine cells.\<close>

definition wf_grid :: "grid \<Rightarrow> bool" where
  "wf_grid g \<longleftrightarrow> length g = 9 \<and> (\<forall>r \<in> set g. length r = 9)"

text \<open>Writing one cell, as a pure function on well-formed boards.\<close>

definition put :: "grid \<Rightarrow> nat \<Rightarrow> nat \<Rightarrow> int \<Rightarrow> grid" where
  "put g i j v = g[i := (g ! i)[j := v]]"

text \<open>
  A board on which the search fails at once: cell \<open>(0, 0)\<close> is the only empty
  cell, its row holds 2 to 9 and its column holds 1.
\<close>

definition dead_end_grid :: grid where
  "dead_end_grid =
     [[0, 2, 3, 4, 5, 6, 7, 8, 9], [1, 5, 6, 7, 8, 9, 1, 2, 3],
      [7, 8, 9, 1, 2, 3, 4, 5, 6], [2, 3, 1, 6, 7, 4, 8, 9, 5],
      [8, 7, 5, 9, 1, 2, 3, 6, 4], [6, 9, 4, 5, 3, 8, 2, 1, 7],
      [3, 1, 7, 2, 6, 5, 9, 4, 8], [5, 4, 2, 8, 9, 7, 6, 3, 1],
      [9, 6, 8, 3, 4, 1, 5, 7, 2]]"

definition col_list :: "grid \<Rightarrow> nat \<Rightarrow> int list" where
  "col_list g c = map (\<lambda>i. g ! i ! c) [0..<9]"

definition box_offsets :: "cell list" where
  "box_offsets = [(0,0),(0,1),(0,2),(1,0),(1,1),(1,2),(2,0),(2,1),(2,2)]"

definition box_list :: "grid \<Rightarrow> nat \<Rightarrow> nat \<Rightarrow> int list" where
  "box_list g r c = map (\<lambda>(i, j). g ! (r div 3 * 3 + i) ! (c div 3 * 3 + j)) box_offsets"

definition candidates :: "grid \<Rightarrow> nat \<Rightarrow> nat \<Rightarrow> int list" where
  "candidates g r c = filter (\<lambda>n. n \<notin> set (g ! r @ col_list g c @ box_list g r c)) [1..9]"

definition peer :: "nat \<Rightarrow> nat \<Rightarrow> nat \<Rightarrow> nat \<Rightarrow> bool" where
  "peer r c i j \<longleftrightarrow> i = r \<or> j = c \<or> (i div 3 = r div 3 \<and> j div 3 = c div 3)"

text \<open>A list is a permutation of the digits 1 to 9: no digit twice, and exactly these digits.\<close>

definition perm_1_9 :: "int list \<Rightarrow> bool" where
  "perm_1_9 xs \<longleftrightarrow> distinct xs \<and> set xs = {1..9}"

definition solved_grid :: "grid \<Rightarrow> bool" where
  "solved_grid g \<longleftrightarrow>
     wf_grid g \<and>
     (\<forall>r \<in> {0..<9}. perm_1_9 (g ! r)) \<and>
     (\<forall>c \<in> {0..<9}. perm_1_9 (col_list g c)) \<and>
     (\<forall>r \<in> {0..<9}. \<forall>c \<in> {0..<9}. perm_1_9 (box_list g r c))"

definition consistent :: "grid \<Rightarrow> bool" where
  "consistent g \<longleftrightarrow>
     (\<forall>i<9. \<forall>j<9. 0 \<le> g ! i ! j \<and> g ! i ! j \<le> 9) \<and>
     (\<forall>i<9. \<forall>j<9. \<forall>k<9. \<forall>l<9.
        peer i j k l \<and> (i, j) \<noteq> (k, l) \<and> g ! i ! j \<noteq> 0 \<longrightarrow> g ! i ! j \<noteq> g ! k ! l)"

definition extends :: "grid \<Rightarrow> grid \<Rightarrow> bool" where
  "extends g s \<longleftrightarrow> (\<forall>i<9. \<forall>j<9. g ! i ! j \<noteq> 0 \<longrightarrow> s ! i ! j = g ! i ! j)"

definition first_min :: "('a \<Rightarrow> nat) \<Rightarrow> 'a \<Rightarrow> nat \<Rightarrow> 'a list \<Rightarrow> 'a \<Rightarrow> bool" where
  "first_min k best bk xs y \<longleftrightarrow>
     (y = best \<and> (\<forall>x \<in> set xs. bk \<le> k x)) \<or>
     (\<exists>us vs. xs = us @ y # vs \<and> k y < bk \<and>
        (\<forall>u \<in> set us. k y < k u) \<and> (\<forall>v \<in> set vs. k y \<le> k v))"

definition candidate_count :: "grid \<Rightarrow> cell \<Rightarrow> nat" where
  "candidate_count g x = (case x of (r, c) \<Rightarrow> length (candidates g r c))"

text \<open>What a call of the search on a well-formed board returns.\<close>

definition search_result :: "grid \<Rightarrow> (error + bool \<times> grid) \<Rightarrow> bool \<Rightarrow> bool" where
  "search_result g res exhausted \<longleftrightarrow>
     (\<exists>b g'. res = Inr (b, g') \<and> wf_grid g' \<and>
        (b \<longrightarrow> get_empty_cells g' = [] \<and> (consistent g \<longrightarrow> consistent g')) \<and>
        (\<not> b \<longrightarrow> g' = g \<and> exhausted))"

definition example_solution :: grid where
  "example_solution =
     [[1, 2, 3, 4, 5, 6, 7, 8, 9], [4, 5, 6, 7, 8, 9, 1, 2, 3],
      [7, 8, 9, 1, 2, 3, 4, 5, 6], [2, 3, 1, 6, 7, 4, 8, 9, 5],
      [8, 7, 5, 9, 1, 2, 3, 6, 4], [6, 9, 4, 5, 3, 8, 2, 1, 7],
      [3, 1, 7, 2, 6, 5, 9, 4, 8], [5, 4, 2, 8, 9, 7, 6, 3, 1],
      [9, 6, 8, 3, 4, 1, 5, 7, 2]]"

definition empty_grid :: grid where
  "empty_grid = replicate BOARD_SIZE (replicate BOARD_SIZE 0)"

text \<open>The values of a row, of a column and of the 3x3 box containing a cell.\<close>

definition row_values :: "grid \<Rightarrow> nat \<Rightarrow> int set" where
  "row_values g r = {g ! r ! j | j. j < 9}"

definition col_values :: "grid \<Rightarrow> nat \<Rightarrow> int set" where
  "col_values g c = {g ! i ! c | i. i < 9}"

definition box_values :: "grid \<Rightarrow> nat \<Rightarrow> nat \<Rightarrow> int set" where
  "box_values g r c = {g ! i ! j | i j. i < 9 \<and> j < 9 \<and> i div 3 = r div 3 \<and> j div 3 = c div 3}"

text \<open>
  A board with two empty cells: \<open>(0, 0)\<close>, which has the two candidates 1 and 2,
  and \<open>(0, 1)\<close>, which has the single candidate 2.
\<close>

definition two_empty_grid :: grid where
  "two_empty_grid =
     [[0, 0, 3, 4, 5, 6, 7, 8, 9], [4, 5, 6, 7, 8, 9, 1, 2, 3],
      [7, 8, 9, 1, 2, 3, 4, 5, 6], [3, 3, 1, 6, 7, 4, 8, 9, 5],
      [8, 7, 5, 9, 1, 2, 3, 6, 4], [6, 9, 4, 5, 3, 8, 2, 1, 7],
      [3, 1, 7, 2, 6, 5, 9, 4, 8], [5, 4, 2, 8, 9, 7, 6, 3, 1],
      [9, 6, 8, 3, 4, 1, 5, 7, 2]]"

section \<open>Basic facts about cells and boards\<close>

lemma set_cell_Inr:
  "set_cell g i j v = Inr g' \<longleftrightarrow> i < length g \<and> j < length (g ! i) \<and> g' = put g i j v"
  by (auto simp: set_cell_def bindE_def getitem_def setitem_def put_def)

lemma set_get_empty_cells:
  "set (get_empty_cells g) = {(i, j). i < length g \<and> j < length (g ! i) \<and> g ! i ! j = 0}"
  by (auto simp: get_empty_cells_def)

lemma length_put [simp]: "length (put g i j v) = length g"
  by (simp add: put_def)

lemma length_put_nth [simp]: "length (put g i j v ! k) = length (g ! k)"
  by (cases "k = i"; cases "i < length g") (simp_all add: put_def list_update_beyond)

lemma put_nth_nth:
  "i < length g \<Longrightarrow> j < length (g ! i) \<Longrightarrow> k < length g \<Longrightarrow> l < length (g ! k) \<Longrightarrow>
   put g i j v ! k ! l = (if k = i \<and> l = j then v else g ! k ! l)"
  by (auto simp: put_def nth_list_update)

lemma put_nth_nth_zero:
  "i < length g \<Longrightarrow> j < length (g ! i) \<Longrightarrow> k < length g \<Longrightarrow> l < length (g ! k) \<Longrightarrow>
   put g i j v ! k ! l = 0 \<longleftrightarrow> (k = i \<and> l = j \<and> v = 0) \<or> ((k \<noteq> i \<or> l \<noteq> j) \<and> g ! k ! l = 0)"
  by (simp add: put_nth_nth) blast

lemma empties_put:
  assumes "i < length g" "j < length (g ! i)"
  shows "set (get_empty_cells (put g i j v)) =
     (if v = 0 then insert (i, j) (set (get_empty_cells g))
      else set (get_empty_cells g) - {(i, j)})"
proof -
  have "x \<in> set (get_empty_cells (put g i j v)) \<longleftrightarrow>
        x \<in> (if v = 0 then insert (i, j) (set (get_empty_cells g))
      else set (get_empty_cells g) - {(i, j)})" for x
  proof (cases x)
    case (Pair k l)
    show ?thesis
    proof (cases "k < length g \<and> l < length (g ! k)")
      case True
      with assms show ?thesis
        unfolding Pair set_get_empty_cells by (simp add: put_nth_nth_zero) blast
    next
      case False
      with assms show ?thesis
        unfolding Pair set_get_empty_cells by auto
    qed
  qed
  then show ?thesis by blast
qed

lemma put_put [simp]: "put (put g i j v) i j w = put g i j w"
  by (cases "i < length g") (simp_all add: put_def list_update_beyond)

lemma put_same: "g ! i ! j = v \<Longrightarrow> put g i j v = g"
  by (metis put_def list_update_id)

lemma mapE_Inr: "mapE f xs = Inr ys \<Longrightarrow> length ys = length xs \<and> (\<forall>k<length xs. f (xs ! k) = Inr (ys ! k))"
proof (induction xs arbitrary: ys)
  case Nil then show ?case by simp
next
  case (Cons x xs)
  then show ?case
    by (auto split: sum.splits simp: nth_Cons split: nat.splits)
qed

lemma get_valid_numbers_range:
  "get_valid_numbers g r c = Inr vs \<Longrightarrow> set vs \<subseteq> {1..9}"
  by (auto simp: get_valid_numbers_def bindE_def split: sum.splits)

lemma min_loop_mem:
  "min_loop key best bk xs = Inr y \<Longrightarrow> y = best \<or> y \<in> set xs"
  by (induction xs arbitrary: best bk) (auto split: sum.splits if_splits)

lemma get_min_Some_mem:
  "get_min_remaining_values_cell g = Inr (Some x) \<Longrightarrow> x \<in> set (get_empty_cells g)"
  by (auto simp: get_min_remaining_values_cell_def Let_def bindE_def 
      split: list.splits sum.splits dest: min_loop_mem)

lemma solve_fail_partial:
  "solve_solve_loop_dom (Inl g) \<Longrightarrow> solve g = Inr (False, g') \<Longrightarrow> g' = g"
  "solve_solve_loop_dom (Inr (g, r, c, ns)) \<Longrightarrow> solve_loop g r c ns = Inr (False, g') \<Longrightarrow>
     (if ns = [] then g' = g else g' = put g r c 0)"
proof (induction g and g r c ns arbitrary: g' and g' rule: solve_solve_loop.pinduct)
  case (1 g)
  from "1.prems" "1.hyps" obtain row col vs where
    cell: "get_min_remaining_values_cell g = Inr (Some (row, col))" and
    vs: "get_valid_numbers g row col = Inr vs" and
    loop: "solve_loop g row col vs = Inr (False, g')"
    by (auto simp: solve.psimps split: sum.splits option.splits)
  from cell have "g ! row ! col = 0"
    using get_min_Some_mem [OF cell] by (simp add: set_get_empty_cells)
  then have "put g row col 0 = g" by (rule put_same)
  with "1.IH" [OF cell refl refl vs loop] show ?case by (simp split: if_splits)
next
  case (2 g row col)
  then show ?case by (simp add: solve_loop.psimps)
next
  case (3 g row col num nums)
  from "3.prems" "3.hyps" obtain g1 g2 g3 where
    s1: "set_cell g row col num = Inr g1" and
    s2: "solve g1 = Inr (False, g2)" and
    s3: "set_cell g2 row col 0 = Inr g3" and
    s4: "solve_loop g3 row col nums = Inr (False, g')"
    by (simp add: solve_loop.psimps split: sum.splits bool.splits prod.splits)
  have "g2 = g1" by (rule "3.IH"(1) [OF s1 s2])
  with s1 s3 have g3: "g3 = put g row col 0" by (simp add: set_cell_Inr)
  from "3.IH"(2) [OF s1 s2 refl refl s3 s4] show ?case
    by (simp add: g3 split: if_splits)
qed

text \<open>
  The search terminates: a placement of a non-zero digit in an empty cell
  removes that cell from the empty cells. The second component of the measure
  is the number of candidates the loop still has to try.
\<close>

lemma card_empties_put_less:
  assumes "i < length g" "j < length (g ! i)" "v \<noteq> 0"
  shows "card (set (get_empty_cells (put g i j v))) < card (set (get_empty_cells (put g i j 0)))"
proof -
  have "set (get_empty_cells (put g i j v)) \<subset> set (get_empty_cells (put g i j 0))"
    using assms by (auto simp: empties_put)
  then show ?thesis by (simp add: psubset_card_mono)
qed

lemma solve_total: "All solve_solve_loop_dom"
proof (relation "measures
    [\<lambda>x. case x of
        Inl g \<Rightarrow> 2 * card (set (get_empty_cells g)) + 1
      | Inr (g, r, c, ns) \<Rightarrow>
          2 * card (set (get_empty_cells (put g r c 0))) + (if 0 \<in> set ns then 2 else 0),
     \<lambda>x. case x of Inl g \<Rightarrow> 0 | Inr (g, r, c, ns) \<Rightarrow> length ns]", goal_cases)
  case 1
  show ?case by simp
next
  case (2 g b x2 row col valid_nums)
  then have cell: "get_min_remaining_values_cell g = Inr (Some (row, col))" by simp
  have "g ! row ! col = 0"
    using get_min_Some_mem [OF cell] by (simp add: set_get_empty_cells)
  then have "put g row col 0 = g" by (rule put_same)
  moreover have "0 \<notin> set valid_nums"
    using get_valid_numbers_range [OF 2(4)] by auto
  ultimately show ?case by simp
next
  case (3 g row col num nums g1)
  then have rng: "row < length g" "col < length (g ! row)" and g1: "g1 = put g row col num"
    by (simp_all add: set_cell_Inr)
  show ?case
  proof (cases "num = 0")
    case True
    then show ?thesis by (simp add: g1)
  next
    case False
    from card_empties_put_less [OF rng False] show ?thesis by (simp add: g1)
  qed
next
  case (4 g row col num nums g1 b x y g3)
  from 4 have g1: "g1 = put g row col num" by (simp add: set_cell_Inr)
  from 4 have "solve g1 = Inr (False, y)" and "solve_solve_loop_dom (Inl g1)" by simp_all
  then have "y = g1" using solve_fail_partial(1) by blast
  with 4 g1 have "g3 = put g row col 0" by (simp add: set_cell_Inr)
  then show ?case by simp
qed


termination solve
  by (rule solve_total)

section \<open>Failure of the search leaves the board as it was\<close>

lemma solve_fail_same: "solve g = Inr (False, g') \<Longrightarrow> g' = g"
  by (rule solve_fail_partial(1) [OF solve_total [THEN spec]])

section \<open>Well-formed boards\<close>

lemma wf_grid_nth: "wf_grid g \<Longrightarrow> i < 9 \<Longrightarrow> length (g ! i) = 9"
  by (simp add: wf_grid_def)

lemma wf_grid_length: "wf_grid g \<Longrightarrow> length g = 9"
  by (simp add: wf_grid_def)

lemma wf_grid_put: "wf_grid g \<Longrightarrow> wf_grid (put g i j v)"
proof (cases "i < length g")
  case True
  assume "wf_grid g"
  with True show ?thesis
    unfolding wf_grid_def by (auto simp: put_def dest!: set_update_subset_insert [THEN subsetD])
next
  case False
  assume "wf_grid g"
  with False show ?thesis by (simp add: put_def list_update_beyond)
qed

lemma get_cell_wf: "wf_grid g \<Longrightarrow> i < 9 \<Longrightarrow> j < 9 \<Longrightarrow> get_cell g i j = Inr (g ! i ! j)"
  by (simp add: get_cell_def bindE_def getitem_def wf_grid_nth wf_grid_length)

lemma set_cell_wf: "wf_grid g \<Longrightarrow> i < 9 \<Longrightarrow> j < 9 \<Longrightarrow> set_cell g i j v = Inr (put g i j v)"
  by (simp add: set_cell_Inr wf_grid_nth wf_grid_length)

lemma mapE_map: "(\<And>x. x \<in> set xs \<Longrightarrow> f x = Inr (h x)) \<Longrightarrow> mapE f xs = Inr (map h xs)"
  by (induction xs) simp_all

lemma box_offsets_eq:
  "concat (map (\<lambda>i. map (\<lambda>j. (i, j)) [0..<BOX_SIZE]) [0..<BOX_SIZE]) = box_offsets"
  by (simp add: BOX_SIZE_def box_offsets_def upt_rec)

lemma get_row_wf: "wf_grid g \<Longrightarrow> r < 9 \<Longrightarrow> get_row g r = Inr (g ! r)"
  by (simp add: get_row_def getitem_def wf_grid_length)

lemma get_col_wf: "wf_grid g \<Longrightarrow> c < 9 \<Longrightarrow> get_col g c = Inr (col_list g c)"
  unfolding get_col_def col_list_def BOARD_SIZE_def
  by (rule mapE_map) (simp add: get_cell_wf)

lemma box_index: "r < 9 \<Longrightarrow> i < 3 \<Longrightarrow> r div 3 * 3 + i < (9::nat)"
  by arith

lemma set_box_offsets: "set box_offsets = {(i, j). i < 3 \<and> j < 3}"
proof -
  have "box_offsets = concat (map (\<lambda>i. map (\<lambda>j. (i, j)) [0..<3]) [0..<3])"
    using box_offsets_eq by (simp add: BOX_SIZE_def)
  then have "set box_offsets = set (concat (map (\<lambda>i. map (\<lambda>j. (i, j)) [0..<3]) [0..<3]))"
    by (rule arg_cong)
  also have "\<dots> = {(i, j). i < 3 \<and> j < 3}" by auto
  finally show ?thesis .
qed

lemma get_box_wf:
  assumes "wf_grid g" "r < 9" "c < 9"
  shows "get_box g r c = Inr (box_list g r c)"
  unfolding get_box_def box_list_def Let_def box_offsets_eq
proof (rule mapE_map)
  fix x assume "x \<in> set box_offsets"
  then obtain i j where x: "x = (i, j)" and "i < 3" "j < 3"
    by (auto simp: set_box_offsets)
  with assms show "(case x of (i, j) \<Rightarrow> get_cell g (r div BOX_SIZE * BOX_SIZE + i) (c div BOX_SIZE * BOX_SIZE + j))
      = Inr (case x of (i, j) \<Rightarrow> g ! (r div 3 * 3 + i) ! (c div 3 * 3 + j))"
    by (simp add: BOX_SIZE_def get_cell_wf box_index)
qed

lemma get_valid_numbers_wf:
  "wf_grid g \<Longrightarrow> r < 9 \<Longrightarrow> c < 9 \<Longrightarrow> get_valid_numbers g r c = Inr (candidates g r c)"
  by (simp add: get_valid_numbers_def bindE_def get_row_wf get_col_wf get_box_wf candidates_def)

lemma num_valid_wf:
  "wf_grid g \<Longrightarrow> r < 9 \<Longrightarrow> c < 9 \<Longrightarrow> num_valid g (r, c) = Inr (length (candidates g r c))"
  by (simp add: num_valid_def bindE_def get_valid_numbers_wf)

lemma empty_cell_wf:
  "wf_grid g \<Longrightarrow> (r, c) \<in> set (get_empty_cells g) \<longleftrightarrow> r < 9 \<and> c < 9 \<and> g ! r ! c = 0"
  by (auto simp: set_get_empty_cells wf_grid_length wf_grid_nth)

lemma perm_1_9_iff: "perm_1_9 xs \<longleftrightarrow> distinct xs \<and> set xs = {1..9}"
  by (simp add: perm_1_9_def)

text \<open>the list of used values, cell by cell\<close>

lemma box_div: "i < 9 \<Longrightarrow> r < 9 \<Longrightarrow> (i div 3 = r div 3) = (\<exists>a<3. i = r div 3 * 3 + a)" for i r :: nat
proof
  assume "i div 3 = r div 3"
  then have "i = r div 3 * 3 + i mod 3" by (metis div_mult_mod_eq)
  then show "\<exists>a<3. i = r div 3 * 3 + a" by (intro exI [of _ "i mod 3"]) simp
next
  assume "\<exists>a<3. i = r div 3 * 3 + a"
  then show "i div 3 = r div 3" by auto
qed

lemma used_iff:
  assumes "wf_grid g" "r < 9" "c < 9"
  shows "n \<in> set (g ! r @ col_list g c @ box_list g r c) \<longleftrightarrow>
         (\<exists>i<9. \<exists>j<9. peer r c i j \<and> g ! i ! j = n)"
proof -
  have row: "n \<in> set (g ! r) \<longleftrightarrow> (\<exists>j<9. g ! r ! j = n)"
    using assms by (auto simp: in_set_conv_nth wf_grid_nth)
  have col: "n \<in> set (col_list g c) \<longleftrightarrow> (\<exists>i<9. g ! i ! c = n)"
    by (auto simp: col_list_def)
  have box: "n \<in> set (box_list g r c) \<longleftrightarrow>
      (\<exists>i<9. \<exists>j<9. i div 3 = r div 3 \<and> j div 3 = c div 3 \<and> g ! i ! j = n)"
    (is "?L \<longleftrightarrow> ?R")
  proof
    assume ?L
    then obtain a b where "a < 3" "b < 3" "n = g ! (r div 3 * 3 + a) ! (c div 3 * 3 + b)"
      by (auto simp: box_list_def set_box_offsets)
    moreover from this assms have "r div 3 * 3 + a < 9" "c div 3 * 3 + b < 9"
      "(r div 3 * 3 + a) div 3 = r div 3" "(c div 3 * 3 + b) div 3 = c div 3"
      by (simp_all add: box_index)
    ultimately show ?R by blast
  next
    assume ?R
    then obtain i j where ij: "i < 9" "j < 9" "i div 3 = r div 3" "j div 3 = c div 3" "g ! i ! j = n"
      by blast
    from ij assms obtain a b where "a < 3" "i = r div 3 * 3 + a" "b < 3" "j = c div 3 * 3 + b"
      by (auto simp: box_div)
    with ij show ?L
      by (auto simp: box_list_def set_box_offsets intro!: image_eqI [where x = "(a, b)"])
  qed
  show ?thesis
    unfolding set_append Un_iff row col box peer_def using assms(2,3) by blast
qed

lemma candidates_iff:
  assumes "wf_grid g" "r < 9" "c < 9"
  shows "n \<in> set (candidates g r c) \<longleftrightarrow>
         1 \<le> n \<and> n \<le> 9 \<and> (\<forall>i<9. \<forall>j<9. peer r c i j \<longrightarrow> g ! i ! j \<noteq> n)"
  unfolding candidates_def set_filter mem_Collect_eq used_iff [OF assms] by auto

lemma peer_sym: "peer r c i j \<longleftrightarrow> peer i j r c"
  by (auto simp: peer_def)

lemma peer_refl: "peer r c r c"
  by (simp add: peer_def)

lemma put_nth_wf:
  "wf_grid g \<Longrightarrow> i < 9 \<Longrightarrow> j < 9 \<Longrightarrow> k < 9 \<Longrightarrow> l < 9 \<Longrightarrow>
   put g i j v ! k ! l = (if k = i \<and> l = j then v else g ! k ! l)"
  by (rule put_nth_nth) (simp_all add: wf_grid_length wf_grid_nth)

lemma consistentD:
  "consistent g \<Longrightarrow> i < 9 \<Longrightarrow> j < 9 \<Longrightarrow> k < 9 \<Longrightarrow> l < 9 \<Longrightarrow> peer i j k l \<Longrightarrow>
   (i, j) \<noteq> (k, l) \<Longrightarrow> g ! i ! j \<noteq> 0 \<Longrightarrow> g ! i ! j \<noteq> g ! k ! l"
  unfolding consistent_def by blast

lemma consistent_range:
  "consistent g \<Longrightarrow> i < 9 \<Longrightarrow> j < 9 \<Longrightarrow> 0 \<le> g ! i ! j \<and> g ! i ! j \<le> 9"
  unfolding consistent_def by blast

lemma consistent_put:
  assumes wf: "wf_grid g" and con: "consistent g" and rc: "r < 9" "c < 9"
    and empty: "g ! r ! c = 0" and n: "n \<in> set (candidates g r c)"
  shows "consistent (put g r c n)"
proof -
  from n have n19: "1 \<le> n" "n \<le> 9"
    and free: "\<And>i j. i < 9 \<Longrightarrow> j < 9 \<Longrightarrow> peer r c i j \<Longrightarrow> g ! i ! j \<noteq> n"
    by (simp_all add: candidates_iff [OF wf rc])
  have range: "0 \<le> put g r c n ! i ! j \<and> put g r c n ! i ! j \<le> 9" if "i < 9" "j < 9" for i j
    using that consistent_range [OF con that] n19 by (simp add: put_nth_wf [OF wf rc])
  have conf: "put g r c n ! i ! j \<noteq> put g r c n ! k ! l"
    if b: "i < 9" "j < 9" "k < 9" "l < 9" and p: "peer i j k l" and ne: "(i, j) \<noteq> (k, l)"
      and nz: "put g r c n ! i ! j \<noteq> 0" for i j k l
  proof (cases "i = r \<and> j = c")
    case True
    with ne have "\<not> (k = r \<and> l = c)" by auto
    moreover from True p have "peer r c k l" by simp
    ultimately show ?thesis using True b free [of k l] by (simp add: put_nth_wf [OF wf rc])
  next
    case ij: False
    show ?thesis
    proof (cases "k = r \<and> l = c")
      case True
      with p have "peer r c i j" by (simp add: peer_sym [of i j])
      with True ij b free [of i j] show ?thesis by (simp add: put_nth_wf [OF wf rc])
    next
      case False
      with ij b have same: "put g r c n ! i ! j = g ! i ! j" "put g r c n ! k ! l = g ! k ! l"
        by (auto simp add: put_nth_wf [OF wf rc])
      from nz have "g ! i ! j \<noteq> 0" unfolding same .
      with con b p ne have "g ! i ! j \<noteq> g ! k ! l" by (intro consistentD)
      then show ?thesis unfolding same .
    qed
  qed
  show ?thesis unfolding consistent_def using range conf by blast
qed

lemma set_eq_1_9:
  assumes "distinct xs" "length xs = 9" "set xs \<subseteq> {1..9::int}"
  shows "set xs = {1..9}"
proof (rule card_subset_eq)
  show "finite {1..9::int}" by simp
  show "set xs \<subseteq> {1..9}" by fact
  from assms have "card (set xs) = 9" by (simp add: distinct_card)
  then show "card (set xs) = card {1..9::int}" by simp
qed

lemma distinct_box_offsets: "distinct box_offsets"
  by (simp add: box_offsets_def)

lemma full_consistent_solved:
  assumes wf: "wf_grid g" and con: "consistent g" and full: "get_empty_cells g = []"
  shows "solved_grid g"
proof -
  have nz: "g ! i ! j \<noteq> 0" if "i < 9" "j < 9" for i j
  proof
    assume "g ! i ! j = 0"
    with that wf have "(i, j) \<in> set (get_empty_cells g)" by (simp add: empty_cell_wf)
    with full show False by simp
  qed
  have rng: "g ! i ! j \<in> {1..9}" if "i < 9" "j < 9" for i j
    using consistent_range [OF con that] nz [OF that] by simp
  have df: "g ! i ! j \<noteq> g ! k ! l"
    if "i < 9" "j < 9" "k < 9" "l < 9" "peer i j k l" "(i, j) \<noteq> (k, l)" for i j k l
    using consistentD [OF con that] nz that by blast
  have row: "perm_1_9 (g ! r)" if r: "r < 9" for r
  proof -
    have len: "length (g ! r) = 9" using wf r by (rule wf_grid_nth)
    have d: "distinct (g ! r)"
      unfolding distinct_conv_nth len using df [of r _ r] r by (auto simp: peer_def)
    have "set (g ! r) \<subseteq> {1..9}"
      using rng [OF r] by (auto simp: in_set_conv_nth len)
    with d len show ?thesis by (simp add: perm_1_9_iff set_eq_1_9)
  qed
  have col: "perm_1_9 (col_list g c)" if c: "c < 9" for c
  proof -
    have "inj_on (\<lambda>i. g ! i ! c) {0..<9}"
    proof (rule inj_onI)
      fix x y assume xy: "x \<in> {0..<9}" "y \<in> {0..<9}" and eq: "g ! x ! c = g ! y ! c"
      show "x = y"
      proof (rule ccontr)
        assume "x \<noteq> y"
        with df [of x c y c] xy c have "g ! x ! c \<noteq> g ! y ! c" by (simp add: peer_def)
        with eq show False by simp
      qed
    qed
    then have d: "distinct (col_list g c)" by (simp add: col_list_def distinct_map)
    have len: "length (col_list g c) = 9" by (simp add: col_list_def)
    have "set (col_list g c) \<subseteq> {1..9}"
      using rng c by (auto simp: col_list_def)
    from set_eq_1_9 [OF d len this] d show ?thesis by (simp add: perm_1_9_iff)
  qed
  have box: "perm_1_9 (box_list g r c)" if rc: "r < 9" "c < 9" for r c
  proof -
    have "inj_on (\<lambda>(a, b). g ! (r div 3 * 3 + a) ! (c div 3 * 3 + b)) (set box_offsets)"
    proof (rule inj_onI, clarsimp simp: set_box_offsets)
      fix a b a' b' :: nat
      assume ab: "a < 3" "b < 3" "a' < 3" "b' < 3"
        and eq: "g ! (r div 3 * 3 + a) ! (c div 3 * 3 + b) = g ! (r div 3 * 3 + a') ! (c div 3 * 3 + b')"
      have "peer (r div 3 * 3 + a) (c div 3 * 3 + b) (r div 3 * 3 + a') (c div 3 * 3 + b')"
        using ab by (simp add: peer_def)
      with df [of "r div 3 * 3 + a" "c div 3 * 3 + b" "r div 3 * 3 + a'" "c div 3 * 3 + b'"] eq ab rc
      show "a = a' \<and> b = b'" by (auto simp: box_index)
    qed
    then have d: "distinct (box_list g r c)"
      by (simp add: box_list_def distinct_map distinct_box_offsets)
    have len: "length (box_list g r c) = 9" by (simp add: box_list_def box_offsets_def)
    have "set (box_list g r c) \<subseteq> {1..9}"
      using rng rc by (auto simp: box_list_def set_box_offsets box_index)
    from set_eq_1_9 [OF d len this] d show ?thesis by (simp add: perm_1_9_iff)
  qed
  show ?thesis unfolding solved_grid_def using wf row col box by simp
qed

lemma solved_range:
  assumes "solved_grid s" "i < 9" "j < 9"
  shows "1 \<le> s ! i ! j \<and> s ! i ! j \<le> 9"
proof -
  from assms have "set (s ! i) = {1..9}" and "length (s ! i) = 9"
    by (simp_all add: solved_grid_def perm_1_9_iff wf_grid_nth)
  with assms(3) have "s ! i ! j \<in> {1..9}" by (metis nth_mem)
  then show ?thesis by simp
qed

lemma mod3_offsets: "i = i div 3 * 3 + i mod 3" for i :: nat
  by simp

lemma solved_no_conflict:
  assumes s: "solved_grid s" and b: "i < 9" "j < 9" "k < 9" "l < 9"
    and p: "peer i j k l" and ne: "(i, j) \<noteq> (k, l)"
  shows "s ! i ! j \<noteq> s ! k ! l"
proof -
  from s have wf: "wf_grid s" by (simp add: solved_grid_def)
  consider (row) "i = k" "j \<noteq> l" | (col) "j = l" "i \<noteq> k"
    | (box) "i div 3 = k div 3" "j div 3 = l div 3" "i mod 3 \<noteq> k mod 3 \<or> j mod 3 \<noteq> l mod 3"
    using p ne unfolding peer_def by (metis mod3_offsets prod.inject)
  then show ?thesis
  proof cases
    case row
    from s b have "distinct (s ! i)" by (simp add: solved_grid_def perm_1_9_iff)
    with row b wf show ?thesis by (simp add: nth_eq_iff_index_eq wf_grid_nth)
  next
    case col
    from s b have "distinct (col_list s j)" by (simp add: solved_grid_def perm_1_9_iff)
    then have "inj_on (\<lambda>i. s ! i ! j) {0..<9}" by (simp add: col_list_def distinct_map)
    with col b show ?thesis by (auto simp: inj_on_def)
  next
    case box
    let ?f = "\<lambda>(a, b). s ! (i div 3 * 3 + a) ! (j div 3 * 3 + b)"
    from s b have "distinct (box_list s i j)" by (simp add: solved_grid_def perm_1_9_iff)
    then have inj: "inj_on ?f (set box_offsets)" by (simp add: box_list_def distinct_map)
    have mem: "(i mod 3, j mod 3) \<in> set box_offsets" "(k mod 3, l mod 3) \<in> set box_offsets"
      by (simp_all add: set_box_offsets)
    have "?f (i mod 3, j mod 3) \<noteq> ?f (k mod 3, l mod 3)"
    proof
      assume "?f (i mod 3, j mod 3) = ?f (k mod 3, l mod 3)"
      from inj_onD [OF inj this mem] box(3) show False by simp
    qed
    moreover have "?f (i mod 3, j mod 3) = s ! i ! j" by simp
    moreover have "?f (k mod 3, l mod 3) = s ! k ! l" using box(1,2) by simp
    ultimately show ?thesis by simp
  qed
qed

lemma solution_candidate:
  assumes s: "solved_grid s" and ext: "extends g s" and wf: "wf_grid g"
    and rc: "r < 9" "c < 9" and empty: "g ! r ! c = 0"
  shows "s ! r ! c \<in> set (candidates g r c)" and "extends (put g r c (s ! r ! c)) s"
proof -
  have "g ! i ! j \<noteq> s ! r ! c" if ij: "i < 9" "j < 9" and p: "peer r c i j" for i j
  proof
    assume eq: "g ! i ! j = s ! r ! c"
    with solved_range [OF s rc] have nz: "g ! i ! j \<noteq> 0" by simp
    with empty have ne: "(r, c) \<noteq> (i, j)" by auto
    from ext ij nz have "s ! i ! j = g ! i ! j" by (simp add: extends_def)
    with eq solved_no_conflict [OF s rc ij p ne] show False by simp
  qed
  with solved_range [OF s rc] show "s ! r ! c \<in> set (candidates g r c)"
    by (simp add: candidates_iff [OF wf rc])
  show "extends (put g r c (s ! r ! c)) s"
    unfolding extends_def using ext by (auto simp: put_nth_wf [OF wf rc] extends_def)
qed

lemma first_min_better:
  assumes "k x < bk" "first_min k x (k x) xs y"
  shows "first_min k best bk (x # xs) y"
proof -
  from assms(2) consider "y = x" "\<forall>z \<in> set xs. k x \<le> k z"
    | us vs where "xs = us @ y # vs" "k y < k x" "\<forall>u \<in> set us. k y < k u" "\<forall>v \<in> set vs. k y \<le> k v"
    unfolding first_min_def by blast
  then show ?thesis
  proof cases
    case 1
    with assms(1) have "x # xs = [] @ y # xs \<and> k y < bk \<and> (\<forall>u \<in> set []. k y < k u) \<and> (\<forall>v \<in> set xs. k y \<le> k v)"
      by simp
    then show ?thesis unfolding first_min_def by blast
  next
    case 2
    with assms(1) have "x # xs = (x # us) @ y # vs \<and> k y < bk \<and> (\<forall>u \<in> set (x # us). k y < k u) \<and> (\<forall>v \<in> set vs. k y \<le> k v)"
      by simp
    then show ?thesis unfolding first_min_def by blast
  qed
qed

lemma first_min_worse:
  assumes "\<not> k x < bk" "first_min k best bk xs y"
  shows "first_min k best bk (x # xs) y"
proof -
  from assms(2) consider "y = best" "\<forall>z \<in> set xs. bk \<le> k z"
    | us vs where "xs = us @ y # vs" "k y < bk" "\<forall>u \<in> set us. k y < k u" "\<forall>v \<in> set vs. k y \<le> k v"
    unfolding first_min_def by blast
  then show ?thesis
  proof cases
    case 1
    with assms(1) show ?thesis unfolding first_min_def by simp
  next
    case 2
    with assms(1) have "x # xs = (x # us) @ y # vs \<and> k y < bk \<and> (\<forall>u \<in> set (x # us). k y < k u) \<and> (\<forall>v \<in> set vs. k y \<le> k v)"
      by simp
    then show ?thesis unfolding first_min_def by blast
  qed
qed

lemma min_loop_spec:
  assumes "\<And>x. x \<in> set xs \<Longrightarrow> key x = Inr (k x)"
  shows "\<exists>y. min_loop key best bk xs = Inr y \<and> first_min k best bk xs y"
  using assms
proof (induction xs arbitrary: best bk)
  case Nil
  then show ?case by (simp add: first_min_def)
next
  case (Cons x xs)
  have kx: "key x = Inr (k x)" by (simp add: Cons.prems)
  have rest: "\<And>z. z \<in> set xs \<Longrightarrow> key z = Inr (k z)" by (simp add: Cons.prems)
  show ?case
  proof (cases "k x < bk")
    case True
    from Cons.IH [OF rest, of x "k x"] obtain y where
      y: "min_loop key x (k x) xs = Inr y" and d: "first_min k x (k x) xs y"
      by blast
    from y kx True have "min_loop key best bk (x # xs) = Inr y" by simp
    with first_min_better [OF True d] show ?thesis by blast
  next
    case False
    from Cons.IH [OF rest, of best bk] obtain y where
      y: "min_loop key best bk xs = Inr y" and d: "first_min k best bk xs y"
      by blast
    from y kx False have "min_loop key best bk (x # xs) = Inr y" by simp
    with first_min_worse [OF False d] show ?thesis by blast
  qed
qed

lemma num_valid_count:
  assumes "wf_grid g" "x \<in> set (get_empty_cells g)"
  shows "num_valid g x = Inr (candidate_count g x)"
proof (cases x)
  case (Pair r c)
  with assms show ?thesis
    by (simp add: empty_cell_wf num_valid_wf candidate_count_def)
qed

lemma get_min_None:
  "get_empty_cells g = [] \<Longrightarrow> get_min_remaining_values_cell g = Inr None"
  by (simp add: get_min_remaining_values_cell_def)

lemma get_min_Some:
  assumes wf: "wf_grid g" and ne: "get_empty_cells g \<noteq> []"
  shows "\<exists>pre cell post. get_empty_cells g = pre @ cell # post \<and>
           get_min_remaining_values_cell g = Inr (Some cell) \<and>
           (\<forall>p \<in> set pre. candidate_count g cell < candidate_count g p) \<and>
           (\<forall>q \<in> set post. candidate_count g cell \<le> candidate_count g q)"
proof -
  from ne obtain x xs where es: "get_empty_cells g = x # xs" by (cases "get_empty_cells g") auto
  have kx: "num_valid g x = Inr (candidate_count g x)"
    by (rule num_valid_count [OF wf]) (simp add: es)
  have "\<And>z. z \<in> set xs \<Longrightarrow> num_valid g z = Inr (candidate_count g z)"
    by (rule num_valid_count [OF wf]) (simp add: es)
  from min_loop_spec [of xs "num_valid g" "candidate_count g", OF this]
  obtain y where y: "min_loop (num_valid g) x (candidate_count g x) xs = Inr y"
    and fm: "first_min (candidate_count g) x (candidate_count g x) xs y" by blast
  have res: "get_min_remaining_values_cell g = Inr (Some y)"
    by (simp add: get_min_remaining_values_cell_def es kx bindE_def y)
  from fm consider "y = x" "\<forall>z \<in> set xs. candidate_count g x \<le> candidate_count g z"
    | us vs where "xs = us @ y # vs" "candidate_count g y < candidate_count g x"
      "\<forall>u \<in> set us. candidate_count g y < candidate_count g u"
      "\<forall>v \<in> set vs. candidate_count g y \<le> candidate_count g v"
    unfolding first_min_def by blast
  then show ?thesis
  proof cases
    case 1
    then have "get_empty_cells g = [] @ y # xs \<and>
           get_min_remaining_values_cell g = Inr (Some y) \<and>
           (\<forall>p \<in> set []. candidate_count g y < candidate_count g p) \<and>
           (\<forall>q \<in> set xs. candidate_count g y \<le> candidate_count g q)"
      using es res by simp
    then show ?thesis by blast
  next
    case 2
    then have "get_empty_cells g = (x # us) @ y # vs \<and>
           get_min_remaining_values_cell g = Inr (Some y) \<and>
           (\<forall>p \<in> set (x # us). candidate_count g y < candidate_count g p) \<and>
           (\<forall>q \<in> set vs. candidate_count g y \<le> candidate_count g q)"
      using es res by simp
    then show ?thesis by blast
  qed
qed

lemma get_min_cases:
  assumes "wf_grid g"
  obtains (none) "get_empty_cells g = []" "get_min_remaining_values_cell g = Inr None"
  | (some) r c where "get_min_remaining_values_cell g = Inr (Some (r, c))"
      "r < 9" "c < 9" "g ! r ! c = 0"
proof (cases "get_empty_cells g = []")
  case True
  then show ?thesis using none get_min_None by blast
next
  case False
  from get_min_Some [OF assms False] obtain pre cell post where
    es: "get_empty_cells g = pre @ cell # post" and
    res: "get_min_remaining_values_cell g = Inr (Some cell)"
    by blast
  obtain r c where cell: "cell = (r, c)" by (cases cell)
  from es have "(r, c) \<in> set (get_empty_cells g)" by (simp add: cell)
  with assms have "r < 9" "c < 9" "g ! r ! c = 0" by (simp_all add: empty_cell_wf)
  with res show ?thesis unfolding cell by (rule some)
qed

lemma solve_search_result:
  "wf_grid g \<Longrightarrow> search_result g (solve g) (\<forall>s. solved_grid s \<longrightarrow> \<not> extends g s)"
  "wf_grid g \<Longrightarrow> r < 9 \<Longrightarrow> c < 9 \<Longrightarrow> g ! r ! c = 0 \<Longrightarrow> set ns \<subseteq> set (candidates g r c) \<Longrightarrow>
   search_result g (solve_loop g r c ns)
     (\<forall>n \<in> set ns. \<forall>s. solved_grid s \<longrightarrow> \<not> extends (put g r c n) s)"
proof (induction g and g r c ns rule: solve_solve_loop.induct)
  case (1 g)
  from "1.prems" show ?case
  proof (cases rule: get_min_cases)
    case none
    then have "solve g = Inr (True, g)" by simp
    with "1.prems" none show ?thesis unfolding search_result_def by blast
  next
    case (some r c)
    have vn: "get_valid_numbers g r c = Inr (candidates g r c)"
      using "1.prems" some by (simp add: get_valid_numbers_wf)
    have eq: "solve g = solve_loop g r c (candidates g r c)"
      by (simp add: some vn)
    from "1.IH" [OF some(1) refl refl vn "1.prems" some(2,3,4)]
    have sr: "search_result g (solve_loop g r c (candidates g r c))
       (\<forall>n \<in> set (candidates g r c). \<forall>s. solved_grid s \<longrightarrow> \<not> extends (put g r c n) s)"
      by simp
    have "\<not> extends g s" if ex: "\<forall>n \<in> set (candidates g r c). \<forall>s. solved_grid s \<longrightarrow> \<not> extends (put g r c n) s"
      and s: "solved_grid s" for s
    proof
      assume "extends g s"
      from solution_candidate [OF s this "1.prems" some(2,3,4)] ex s show False by blast
    qed
    with sr show ?thesis unfolding eq search_result_def by blast
  qed
next
  case (2 g row col)
  have "solve_loop g row col [] = Inr (False, g)" by simp
  with "2.prems"(1) show ?case unfolding search_result_def by auto
next
  case (3 g row col num nums)
  from "3.prems" have wf: "wf_grid g" and rc: "row < 9" "col < 9" and empty: "g ! row ! col = 0"
    by simp_all
  from "3.prems" have num: "num \<in> set (candidates g row col)"
    and nums: "set nums \<subseteq> set (candidates g row col)" by simp_all
  let ?g1 = "put g row col num"
  have s1: "set_cell g row col num = Inr ?g1" using wf rc by (rule set_cell_wf)
  have wf1: "wf_grid ?g1" using wf by (rule wf_grid_put)
  from "3.IH"(1) [OF s1 wf1]
  obtain b g2 where r1: "solve ?g1 = Inr (b, g2)" and wf2: "wf_grid g2"
    and succ: "b \<Longrightarrow> get_empty_cells g2 = [] \<and> (consistent ?g1 \<longrightarrow> consistent g2)"
    and fail: "\<not> b \<Longrightarrow> g2 = ?g1 \<and> (\<forall>s. solved_grid s \<longrightarrow> \<not> extends ?g1 s)"
    unfolding search_result_def by blast
  show ?case
  proof (cases b)
    case True
    have res: "solve_loop g row col (num # nums) = Inr (True, g2)"
      using s1 r1 True by simp
    have "consistent g \<Longrightarrow> consistent g2"
      using succ [OF True] consistent_put [OF wf _ rc empty num] by blast
    with wf2 succ [OF True] show ?thesis unfolding search_result_def res by blast
  next
    case False
    from fail [OF False] have g2: "g2 = ?g1" and no1: "\<forall>s. solved_grid s \<longrightarrow> \<not> extends ?g1 s"
      by simp_all
    have undo: "put ?g1 row col 0 = g"
      using empty by (simp add: put_same)
    have s3: "set_cell g2 row col 0 = Inr g"
      unfolding g2 using set_cell_wf [OF wf1 rc, of 0] undo by simp
    from r1 False have r1': "solve ?g1 = Inr (False, g2)" by simp
    have eq: "solve_loop g row col (num # nums) = solve_loop g row col nums"
      using s1 r1' s3 by simp
    from "3.IH"(2) [OF s1 r1' refl _ s3 wf rc empty nums]
    have "search_result g (solve_loop g row col nums)
       (\<forall>n \<in> set nums. \<forall>s. solved_grid s \<longrightarrow> \<not> extends (put g row col n) s)"
      by simp
    with no1 show ?thesis unfolding eq search_result_def by (simp only: set_simps ball_simps) blast
  qed
qed

lemma solve_returns:
  assumes "wf_grid g"
  shows "\<exists>b g'. solve g = Inr (b, g') \<and> wf_grid g'"
  using solve_search_result(1) [OF assms] unfolding search_result_def by blast

lemma solve_sound:
  assumes "wf_grid g" "consistent g" "solve g = Inr (True, g')"
  shows "solved_grid g'"
proof -
  from solve_search_result(1) [OF assms(1)] assms(3)
  have "wf_grid g'" "get_empty_cells g' = []" "consistent g \<longrightarrow> consistent g'"
    unfolding search_result_def by auto
  with assms(2) show ?thesis by (simp add: full_consistent_solved)
qed

lemma solve_complete:
  assumes "wf_grid g" "solved_grid s" "extends g s"
  shows "\<exists>g'. solve g = Inr (True, g')"
proof -
  from solve_search_result(1) [OF assms(1)] obtain b g' where
    r: "solve g = Inr (b, g')" and f: "\<not> b \<longrightarrow> (\<forall>s. solved_grid s \<longrightarrow> \<not> extends g s)"
    unfolding search_result_def by blast
  from f assms(2,3) have "b = True" by blast
  with r show ?thesis by simp
qed

lemma solved_example: "solved_grid example_solution"
  unfolding solved_grid_def perm_1_9_iff by code_simp

lemma all_zero_nth:
  assumes "wf_grid g" "\<forall>row \<in> set g. \<forall>x \<in> set row. x = 0" "i < 9" "j < 9"
  shows "g ! i ! j = 0"
proof -
  from assms have "g ! i \<in> set g" by (simp add: wf_grid_length)
  moreover from assms have "g ! i ! j \<in> set (g ! i)" by (simp add: wf_grid_nth)
  ultimately show ?thesis using assms(2) by blast
qed

lemma distinct_pairs:
  "distinct is \<Longrightarrow> (\<And>i. distinct (h i)) \<Longrightarrow>
   distinct (concat (map (\<lambda>i. map (\<lambda>j. (i, j)) (h i)) is))"
  by (induction "is") (auto simp: distinct_map inj_on_def)

lemma distinct_get_empty_cells: "distinct (get_empty_cells g)"
  unfolding get_empty_cells_def by (rule distinct_pairs) simp_all

lemma length_empties_put_less:
  assumes "(r, c) \<in> set (get_empty_cells g)" "n \<noteq> 0"
  shows "length (get_empty_cells (put g r c n)) < length (get_empty_cells g)"
proof -
  from assms(1) have rng: "r < length g" "c < length (g ! r)"
    by (simp_all add: set_get_empty_cells)
  have "set (get_empty_cells (put g r c n)) = set (get_empty_cells g) - {(r, c)}"
    using assms(2) by (simp add: empties_put [OF rng])
  moreover have "card (set (get_empty_cells g) - {(r, c)}) < card (set (get_empty_cells g))"
    using assms(1) by (intro card_Diff1_less) simp_all
  ultimately have "card (set (get_empty_cells (put g r c n))) < card (set (get_empty_cells g))"
    by (simp only:)
  then show ?thesis by (simp add: distinct_card distinct_get_empty_cells)
qed

lemma recursive_call_decreases:
  assumes "get_min_remaining_values_cell g = Inr (Some (r, c))"
    and "get_valid_numbers g r c = Inr nums" and "n \<in> set nums"
  shows "\<exists>g1. set_cell g r c n = Inr g1 \<and>
           length (get_empty_cells g1) < length (get_empty_cells g)"
proof -
  from assms(1) have mem: "(r, c) \<in> set (get_empty_cells g)" by (rule get_min_Some_mem)
  then have "set_cell g r c n = Inr (put g r c n)"
    by (simp add: set_cell_Inr set_get_empty_cells)
  moreover from get_valid_numbers_range [OF assms(2)] assms(3) have "n \<noteq> 0" by auto
  ultimately show ?thesis using length_empties_put_less [OF mem] by simp
qed

lemma wf_dead_end: "wf_grid dead_end_grid"
  by (simp add: wf_grid_def dead_end_grid_def)

lemma sorted_candidates: "sorted_wrt (<) (candidates g r c)"
  unfolding candidates_def by (intro sorted_wrt_filter) (simp add: upto.simps)

lemma peer_values:
  "r < 9 \<Longrightarrow> c < 9 \<Longrightarrow>
   row_values g r \<union> col_values g c \<union> box_values g r c =
   {g ! i ! j | i j. i < 9 \<and> j < 9 \<and> peer r c i j}"
  unfolding row_values_def col_values_def box_values_def peer_def by blast

lemma get_min_None_iff:
  assumes "wf_grid g"
  shows "get_min_remaining_values_cell g = Inr None \<longleftrightarrow> get_empty_cells g = []"
proof
  assume n: "get_min_remaining_values_cell g = Inr None"
  show "get_empty_cells g = []"
  proof (rule ccontr)
    assume "get_empty_cells g \<noteq> []"
    from get_min_Some [OF assms this] n show False by auto
  qed
qed (rule get_min_None)

lemma wf_two_empty: "wf_grid two_empty_grid"
  by (simp add: wf_grid_def two_empty_grid_def)

lemma two_empty_cells: "get_empty_cells two_empty_grid = [(0, 0), (0, 1)]"
  by code_simp

lemma cell_check_False:
  assumes "wf_grid g" "i < 9" "j < 9"
  shows "cell_check g (i, j) = Inr False"
proof -
  have "g ! i ! j \<notin> set (candidates g i j)"
    unfolding candidates_iff [OF assms] using assms(2,3) peer_refl [of i j] by blast
  then have "candidates g i j \<noteq> [g ! i ! j]" by auto
  with assms show ?thesis
    by (simp add: cell_check_def bindE_def get_valid_numbers_wf get_cell_wf)
qed

lemma all_cells_first: "all_cells = (0, 0) # tl all_cells"
  by (simp add: all_cells_def BOARD_SIZE_def upt_rec)

lemma is_solved_False:
  assumes "wf_grid g"
  shows "is_solved g = Inr False"
proof (cases "get_empty_cells g = []")
  case True
  have "all_loop (cell_check g) ((0, 0) # tl all_cells) = Inr False"
    by (simp add: cell_check_False [OF assms])
  with True show ?thesis by (simp add: is_solved_def all_cells_first [symmetric])
next
  case False
  then show ?thesis by (simp add: is_solved_def)
qed

lemma sample_loop_keeps_cell_cleared:
  assumes "wf_grid g" "i < 9" "j < 9"
  shows "sample_loop g i j temp 0 ks = Inr (g, 0)"
proof (induction ks)
  case Nil
  show ?case by simp
next
  case (Cons k ks)
  have s: "set_cell g i j temp = Inr (put g i j temp)" using assms by (rule set_cell_wf)
  from solve_returns [OF wf_grid_put [OF assms(1)], of i j temp]
  obtain b g' where r: "solve (put g i j temp) = Inr (b, g')" and wf': "wf_grid g'" by blast
  from is_solved_False [OF wf'] s r Cons.IH show ?case by simp
qed

lemma wf_example: "wf_grid example_solution"
  by (simp add: wf_grid_def example_solution_def)

section \<open>Claims\<close>

lemma solve_dead_end: "solve dead_end_grid = Inr (False, dead_end_grid)"
  by code_simp

text \<open>
  Claim C5. Whenever \<^verbatim>\<open>solve()\<close> returns false, the grid after the call is the
  grid before the call, cell for cell: every placement the failed search made
  has been reset to 0. This holds for every grid, not only well-formed ones.
\<close>

theorem solve_failure_restores_grid:
  "solve g = Inr (False, g') \<Longrightarrow> g' = g"
  by (rule solve_fail_same)

theorem solve_failure_restores_grid_witness:
  "\<exists>g'. solve dead_end_grid = Inr (False, g') \<and> g' = dead_end_grid"
  using solve_failure_restores_grid [OF solve_dead_end] solve_dead_end by blast

text \<open>
  Claim C1. On every 9x9 grid whose 81 cells are all 0, \<^verbatim>\<open>solve()\<close> returns true
  and leaves a grid in which every row, every column and every 3x3 box is a
  permutation of the digits 1 to 9.
\<close>

theorem solve_empty_grid:
  assumes "wf_grid g" and "\<forall>row \<in> set g. \<forall>x \<in> set row. x = 0"
  shows "\<exists>g'. solve g = Inr (True, g') \<and> solved_grid g'"
proof -
  note z = all_zero_nth [OF assms]
  have con: "consistent g" unfolding consistent_def using z by simp
  have "extends g example_solution" unfolding extends_def using z by simp
  from solve_complete [OF assms(1) solved_example this]
  obtain g' where r: "solve g = Inr (True, g')" ..
  with solve_sound [OF assms(1) con] show ?thesis by blast
qed

theorem solve_empty_grid_witness:
  "\<exists>g'. solve empty_grid = Inr (True, g') \<and> solved_grid g'"
  by (rule solve_empty_grid) (simp_all add: empty_grid_def BOARD_SIZE_def wf_grid_def)

text \<open>
  Claim C10. On every 9x9 grid (whatever its cell values, so in particular
  for values in 0 to 9) \<^verbatim>\<open>solve()\<close> returns a boolean and raises no exception.
  \<open>solve\<close> is a total function, so it terminates; and every recursive call is
  made on a grid with strictly fewer empty cells than the grid of its caller.
\<close>

theorem solve_terminates_without_exception:
  assumes "wf_grid g"
  shows "(\<exists>b g'. solve g = Inr (b, g')) \<and>
         (\<forall>r c nums n. get_min_remaining_values_cell g = Inr (Some (r, c)) \<and>
            get_valid_numbers g r c = Inr nums \<and> n \<in> set nums \<longrightarrow>
            (\<exists>g1. set_cell g r c n = Inr g1 \<and>
               length (get_empty_cells g1) < length (get_empty_cells g)))"
  using solve_returns [OF assms] recursive_call_decreases by blast

theorem solve_terminates_without_exception_witness:
  "\<exists>b g'. solve dead_end_grid = Inr (b, g')"
  using solve_terminates_without_exception [OF wf_dead_end] by blast

text \<open>
  Claim C6. For row and column indices in 0 to 8, \<^verbatim>\<open>get_valid_numbers(r, c)\<close>
  returns the strictly ascending list of the digits 1 to 9 that are absent from
  the union of the values of row \<open>r\<close>, of column \<open>c\<close> and of the 3x3 box
  containing \<open>(r, c)\<close>; so it never includes a digit present in one of them.
\<close>

theorem get_valid_numbers_spec:
  assumes "wf_grid g" "r < 9" "c < 9"
  shows "\<exists>vs. get_valid_numbers g r c = Inr vs \<and> sorted_wrt (<) vs \<and>
           set vs = {1..9} - (row_values g r \<union> col_values g c \<union> box_values g r c)"
proof -
  have "n \<in> set (candidates g r c) \<longleftrightarrow>
        n \<in> {1..9} - {g ! i ! j | i j. i < 9 \<and> j < 9 \<and> peer r c i j}" for n
    unfolding candidates_iff [OF assms] by simp blast
  then have "set (candidates g r c) = {1..9} - {g ! i ! j | i j. i < 9 \<and> j < 9 \<and> peer r c i j}"
    by (rule set_eqI)
  with get_valid_numbers_wf [OF assms] sorted_candidates show ?thesis
    unfolding peer_values [OF assms(2,3)] by blast
qed

theorem get_valid_numbers_spec_witness:
  "\<exists>vs. get_valid_numbers dead_end_grid 0 0 = Inr vs \<and> sorted_wrt (<) vs \<and>
     set vs = {1..9} - (row_values dead_end_grid 0 \<union> col_values dead_end_grid 0
                          \<union> box_values dead_end_grid 0 0)"
  using get_valid_numbers_spec [OF wf_dead_end, of 0 0] by simp

text \<open>
  Claim C7. On every 9x9 grid, \<^verbatim>\<open>get_min_remaining_values_cell()\<close> returns
  \<^verbatim>\<open>None\<close> if and only if \<^verbatim>\<open>get_empty_cells()\<close> is empty. Otherwise it returns
  an empty cell whose number of candidates is minimal among the empty cells,
  and the first such cell in the order of \<^verbatim>\<open>get_empty_cells()\<close>: every empty
  cell before it has strictly more candidates, every one after it at least as
  many. The number of candidates \<open>candidate_count\<close> of an empty cell is what
  the key function \<^verbatim>\<open>len(self.get_valid_numbers(*x))\<close> returns.
\<close>

theorem min_remaining_values_cell_spec:
  assumes "wf_grid g"
  shows "(get_min_remaining_values_cell g = Inr None \<longleftrightarrow> get_empty_cells g = []) \<and>
         (\<forall>x \<in> set (get_empty_cells g). num_valid g x = Inr (candidate_count g x)) \<and>
         (get_empty_cells g \<noteq> [] \<longrightarrow>
            (\<exists>pre cell post. get_empty_cells g = pre @ cell # post \<and>
               get_min_remaining_values_cell g = Inr (Some cell) \<and>
               (\<forall>p \<in> set pre. candidate_count g cell < candidate_count g p) \<and>
               (\<forall>q \<in> set post. candidate_count g cell \<le> candidate_count g q)))"
  using get_min_None_iff [OF assms] num_valid_count [OF assms] get_min_Some [OF assms]
  by blast

theorem min_remaining_values_cell_spec_witness:
  "get_min_remaining_values_cell two_empty_grid = Inr (Some (0, 1)) \<and>
   get_empty_cells two_empty_grid = [(0, 0), (0, 1)] \<and>
   candidate_count two_empty_grid (0, 1) < candidate_count two_empty_grid (0, 0)"
proof -
  have ne: "get_empty_cells two_empty_grid \<noteq> []" by (simp add: two_empty_cells)
  from min_remaining_values_cell_spec [OF wf_two_empty, THEN conjunct2, THEN conjunct2, THEN mp, OF ne]
  obtain pre cell post where
    es: "get_empty_cells two_empty_grid = pre @ cell # post" and
    res: "get_min_remaining_values_cell two_empty_grid = Inr (Some cell)" and
    before: "\<forall>p \<in> set pre. candidate_count two_empty_grid cell < candidate_count two_empty_grid p" and
    after: "\<forall>q \<in> set post. candidate_count two_empty_grid cell \<le> candidate_count two_empty_grid q"
    by blast
  have c0: "candidate_count two_empty_grid (0, 0) = 2" by code_simp
  have c1: "candidate_count two_empty_grid (0, 1) = 1" by code_simp
  from es have "(pre = [] \<and> cell = (0, 0) \<and> post = [(0, 1)]) \<or> (pre = [(0, 0)] \<and> cell = (0, 1) \<and> post = [])"
    unfolding two_empty_cells by (auto simp: Cons_eq_append_conv append_eq_Cons_conv)
  with after c0 c1 have "cell = (0, 1)" by auto
  with res c0 c1 two_empty_cells show ?thesis by simp
qed

text \<open>
  Claim C2. On every 9x9 grid, filled and conflict-free ones included,
  \<^verbatim>\<open>is_solved()\<close> returns false: for every cell the comparison
  \<^verbatim>\<open>get_valid_numbers(i, j) == [grid[i][j]]\<close> is false, since the cell's own value
  is in its row and so is no candidate. Hence, during generation, the sampling
  loop run on a board with a cleared cell ends with \<^verbatim>\<open>count\<close> still 0 and with
  the board unchanged: the cleared cell is never restored.
\<close>

theorem is_solved_always_false:
  assumes "wf_grid g"
  shows "is_solved g = Inr False \<and>
         (\<forall>i<9. \<forall>j<9. cell_check g (i, j) = Inr False) \<and>
         (\<forall>i<9. \<forall>j<9. \<forall>temp. sample_loop g i j temp 0 [0..<10] = Inr (g, 0))"
  using is_solved_False [OF assms] cell_check_False [OF assms]
    sample_loop_keeps_cell_cleared [OF assms] by blast

theorem is_solved_always_false_witness:
  "is_solved example_solution = Inr False \<and>
   cell_check example_solution (4, 4) = Inr False \<and>
   sample_loop (put example_solution 4 4 0) 4 4 1 0 [0..<10] = Inr (put example_solution 4 4 0, 0)"
proof -
  note c2 = is_solved_always_false [OF wf_example]
  note c2' = is_solved_always_false [OF wf_grid_put [OF wf_example], of 4 4 0]
  from c2 have "is_solved example_solution = Inr False" by blast
  moreover from c2 have "cell_check example_solution (4, 4) = Inr False" by simp
  moreover from c2' have "sample_loop (put example_solution 4 4 0) 4 4 1 0 [0..<10]
      = Inr (put example_solution 4 4 0, 0)" by simp
  ultimately show ?thesis by blast
qed

text \<open>
  Claim C3 fails on the code. The board \<open>example_solution\<close> is solved (no empty
  cell, every row, column and box a permutation of 1 to 9), and \<^verbatim>\<open>is_solved()\<close>
  returns false on it.
\<close>

theorem is_solved_rejects_solved_grid:
  "solved_grid example_solution \<and> get_empty_cells example_solution = [] \<and>
   is_solved example_solution = Inr False"
proof -
  have "get_empty_cells example_solution = []" by code_simp
  with solved_example is_solved_False [OF wf_example] show ?thesis by blast
qed

theorem is_solved_rejects_solved_grid_witness:
  "is_solved example_solution \<noteq> Inr True"
  using is_solved_rejects_solved_grid by simp

end
